theory Spec2Isabelle
  imports Main "HOL-Library.Word"
begin

section \<open>Key and signature codec of pkg/encoding/ecdsa.go\<close>

text \<open>
  A shallow embedding of the three functions of \<^verbatim>\<open>pkg/encoding/ecdsa.go\<close>:
  \<^verbatim>\<open>EncodeS256PubKey\<close>, \<^verbatim>\<open>DecodeECDSAPubKey\<close> and \<^verbatim>\<open>ComposeECDSASignature\<close>.
  A Go \<^verbatim>\<open>[]byte\<close> is a list of 8-bit words, a \<^verbatim>\<open>*big.Int\<close> is an \<open>int\<close> behind a
  pointer (\<open>None\<close> is \<^verbatim>\<open>nil\<close>), a returned \<^verbatim>\<open>error\<close> is the left summand of a sum and a
  run-time panic is a value of its own type, so that every way a call can end is a branch
  of its model. The three functions are first given on the bytes their slices show;
  \<^verbatim>\<open>ComposeECDSASignature\<close> is then given a second time on slices in a store of arrays,
  where a call allocates, reads and writes.
\<close>

subsection \<open>Bytes, panics and errors\<close>

type_synonym byte = "8 word"

text \<open>
  The panics the three functions can raise: dereferencing a \<^verbatim>\<open>nil\<close> pointer, indexing a
  slice out of range, and \<^verbatim>\<open>big.Int.FillBytes\<close> on a buffer that is too small
  (\<^verbatim>\<open>"math/big: buffer too small to fit value"\<close>).
\<close>

datatype panic = NilPointerDereference | IndexOutOfRange | BufferTooSmall

text \<open>\<^verbatim>\<open>errors.New(msg)\<close>: an error value that carries its message.\<close>

datatype error = ErrorString string

definition InvalidKeyEncoding :: error where
  "InvalidKeyEncoding = ErrorString ''invalid encoded key length, expected 64 bytes''"

definition PointNotOnCurve :: error where
  "PointNotOnCurve = ErrorString ''invalid public key: point not on secp256k1 curve''"

subsection \<open>The operations of math/big the codec calls\<close>

text \<open>
  \<^verbatim>\<open>new(big.Int).SetBytes(buf)\<close> reads \<open>buf\<close> as a big-endian unsigned integer; the
  empty slice is 0. The loop runs over the bytes from the most significant one.
\<close>

definition SetBytes :: "byte list \<Rightarrow> int" where
  "SetBytes buf = foldl (\<lambda>acc b. acc * 256 + uint b) 0 buf"

text \<open>
  The big-endian digits in base 256 of a magnitude, the most significant one first and
  none for 0: a byte slice without leading zero bytes.
\<close>

function mag_bytes :: "int \<Rightarrow> byte list" where
  "mag_bytes n = (if n \<le> 0 then [] else mag_bytes (n div 256) @ [word_of_int (n mod 256)])"
  by pat_completeness auto
termination
  by (relation "measure nat") auto

declare mag_bytes.simps [simp del]

text \<open>\<^verbatim>\<open>x.Bytes()\<close>: the absolute value of \<open>x\<close> as a big-endian byte slice of minimal length.\<close>

definition Bytes :: "int \<Rightarrow> byte list" where
  "Bytes x = mag_bytes \<bar>x\<bar>"

text \<open>\<^verbatim>\<open>make([]byte, n)\<close>: \<open>n\<close> zero bytes.\<close>

definition make_bytes :: "nat \<Rightarrow> byte list" where
  "make_bytes n = replicate n 0"

text \<open>
  \<^verbatim>\<open>x.FillBytes(buf)\<close> clears \<open>buf\<close>, stores the absolute value of \<open>x\<close> in it as a
  zero-extended big-endian byte slice and returns it; it panics when the absolute value
  does not fit in \<open>len(buf)\<close> bytes.
\<close>

definition FillBytes :: "int \<Rightarrow> byte list \<Rightarrow> panic + byte list" where
  "FillBytes x buf =
     (let mag = Bytes x in
      if length buf < length mag then Inl BufferTooSmall
      else Inr (replicate (length buf - length mag) 0 @ mag))"

text \<open>
  \<^verbatim>\<open>copy(dst, src)\<close> overwrites the first \<open>min(len(dst), len(src))\<close> bytes of \<open>dst\<close>;
  \<open>copy_bytes\<close> gives the contents of \<open>dst\<close> afterwards.
\<close>

definition copy_bytes :: "byte list \<Rightarrow> byte list \<Rightarrow> byte list" where
  "copy_bytes dst src =
     (let n = min (length dst) (length src) in take n src @ drop n dst)"

text \<open>
  \<^verbatim>\<open>copy(buf[lo:hi], src)\<close> for \<open>lo \<le> hi \<le> len(buf)\<close>: the slice expression is a window
  on the array of \<open>buf\<close>, so the copy changes \<open>buf\<close> between \<open>lo\<close> and \<open>hi\<close> only.
\<close>

definition copy_into :: "byte list \<Rightarrow> nat \<Rightarrow> nat \<Rightarrow> byte list \<Rightarrow> byte list" where
  "copy_into buf lo hi src =
     take lo buf @ copy_bytes (take (hi - lo) (drop lo buf)) src @ drop hi buf"

subsection \<open>ComposeECDSASignature\<close>

text \<open>
  \<^verbatim>\<open>
  func ComposeECDSASignature(r, s, recovery []byte) []byte {
      sigBytes := make([]byte, 65)
      copy(sigBytes[0:32], new(big.Int).SetBytes(r).FillBytes(make([]byte, 32)))
      copy(sigBytes[32:64], new(big.Int).SetBytes(s).FillBytes(make([]byte, 32)))
      sigBytes[64] = recovery[0]
      return sigBytes
  }
  \<close>
  The function has no error result: it returns the 65 bytes or panics, in the order of
  its statements.
\<close>

definition ComposeECDSASignature ::
  "byte list \<Rightarrow> byte list \<Rightarrow> byte list \<Rightarrow> panic + byte list" where
  "ComposeECDSASignature r s recovery =
     (let sigBytes = make_bytes 65 in
      case FillBytes (SetBytes r) (make_bytes 32) of
        Inl p \<Rightarrow> Inl p
      | Inr rb \<Rightarrow>
          (let sigBytes = copy_into sigBytes 0 32 rb in
           case FillBytes (SetBytes s) (make_bytes 32) of
             Inl p \<Rightarrow> Inl p
           | Inr sb \<Rightarrow>
               (let sigBytes = copy_into sigBytes 32 64 sb in
                case recovery of
                  [] \<Rightarrow> Inl IndexOutOfRange
                | v # _ \<Rightarrow> Inr (sigBytes[64 := v]))))"

subsection \<open>Public keys and the curve\<close>

text \<open>
  \<^verbatim>\<open>ecdsa.PublicKey\<close> is \<^verbatim>\<open>struct { elliptic.Curve; X, Y *big.Int }\<close>. The codec meets two
  curves: \<^verbatim>\<open>btcec.S256()\<close>, which \<^verbatim>\<open>DecodeECDSAPubKey\<close> puts in the keys it returns, and
  \<^verbatim>\<open>elliptic.P256()\<close>, the curve of the keys the encoder is given in its tests.
\<close>

datatype Curve = S256 | P256

record PublicKey =
  Curve :: Curve
  X :: "int option"
  Y :: "int option"

text \<open>The field prime of secp256k1, \<open>2^256 - 2^32 - 977\<close>.\<close>

definition S256_P :: int where
  "S256_P = 0xFFFFFFFFFFFFFFFFFFFFFFFFFFFFFFFFFFFFFFFFFFFFFFFFFFFFFFFEFFFFFC2F"

text \<open>
  \<^verbatim>\<open>btcec.S256().IsOnCurve(x, y)\<close> for coordinates \<open>0 \<le> x, y < 2^256\<close>, the only ones
  \<^verbatim>\<open>DecodeECDSAPubKey\<close> passes to it: both coordinates become field values (reduced
  modulo the field prime) and the test is \<open>y\<^sup>2 = x\<^sup>3 + 7\<close> in the field.
\<close>

definition IsOnCurve :: "int \<Rightarrow> int \<Rightarrow> bool" where
  "IsOnCurve x y =
     (let fx = x mod S256_P; fy = y mod S256_P
      in (fy * fy) mod S256_P = (fx * fx * fx + 7) mod S256_P)"

text \<open>
  The curve equation of secp256k1 as the specification words it: the integers \<open>x\<close> and
  \<open>y\<close> satisfy \<open>y\<^sup>2 = x\<^sup>3 + 7\<close> modulo the field prime.
\<close>

definition satisfies_curve_equation :: "int \<Rightarrow> int \<Rightarrow> bool" where
  "satisfies_curve_equation x y = ((y ^ 2 - (x ^ 3 + 7)) mod S256_P = 0)"

text \<open>
  A valid secp256k1 public key: a key of the curve whose coordinates are field elements
  that satisfy the curve equation.
\<close>

definition valid_S256_key :: "PublicKey \<Rightarrow> bool" where
  "valid_S256_key k =
     (Curve k = S256 \<and>
      (case X k of
         None \<Rightarrow> False
       | Some x \<Rightarrow>
           (case Y k of
              None \<Rightarrow> False
            | Some y \<Rightarrow>
                0 \<le> x \<and> x < S256_P \<and> 0 \<le> y \<and> y < S256_P \<and> satisfies_curve_equation x y)))"

subsection \<open>EncodeS256PubKey\<close>

text \<open>
  \<^verbatim>\<open>
  func EncodeS256PubKey(pubKey *ecdsa.PublicKey) ([]byte, error) {
      publicKeyBytes := append(pubKey.X.Bytes(), pubKey.Y.Bytes()...)
      return publicKeyBytes, nil
  }
  \<close>
  The key and its two coordinates are pointers: each dereference of \<^verbatim>\<open>nil\<close> panics. The
  error result is always \<^verbatim>\<open>nil\<close> (\<open>None\<close>).
\<close>

definition EncodeS256PubKey :: "PublicKey option \<Rightarrow> panic + (byte list \<times> error option)" where
  "EncodeS256PubKey pubKey =
     (case pubKey of
        None \<Rightarrow> Inl NilPointerDereference
      | Some k \<Rightarrow>
          (case X k of
             None \<Rightarrow> Inl NilPointerDereference
           | Some x \<Rightarrow>
               (case Y k of
                  None \<Rightarrow> Inl NilPointerDereference
                | Some y \<Rightarrow>
                    (let publicKeyBytes = Bytes x @ Bytes y
                     in Inr (publicKeyBytes, None)))))"

subsection \<open>DecodeECDSAPubKey\<close>

text \<open>
  \<^verbatim>\<open>
  func DecodeECDSAPubKey(encodedKey []byte) (*ecdsa.PublicKey, error) {
      if len(encodedKey) == 65 && encodedKey[0] == 0x04 {
          encodedKey = encodedKey[1:] // Strip uncompressed prefix
      }
      if len(encodedKey) != 64 {
          return nil, errors.New("invalid encoded key length, expected 64 bytes")
      }
      x := new(big.Int).SetBytes(encodedKey[:32])
      y := new(big.Int).SetBytes(encodedKey[32:])
      curve := btcec.S256()
      if !curve.IsOnCurve(x, y) {
          return nil, errors.New("invalid public key: point not on secp256k1 curve")
      }
      return &ecdsa.PublicKey{Curve: curve, X: x, Y: y}, nil
  }
  \<close>
  No statement can panic: \<^verbatim>\<open>encodedKey[0]\<close> is read only when the length is 65, and the
  two slice expressions are taken of a slice of length 64.
\<close>

definition DecodeECDSAPubKey :: "byte list \<Rightarrow> error + PublicKey" where
  "DecodeECDSAPubKey encodedKey0 =
     (let encodedKey =
            (if length encodedKey0 = 65 \<and> encodedKey0 ! 0 = 0x04
             then drop 1 encodedKey0 else encodedKey0)
      in if length encodedKey \<noteq> 64 then Inl InvalidKeyEncoding
         else
           (let x = SetBytes (take 32 encodedKey);
                y = SetBytes (drop 32 encodedKey)
            in if \<not> IsOnCurve x y then Inl PointNotOnCurve
               else Inr \<lparr>Curve = S256, X = Some x, Y = Some y\<rparr>))"

subsection \<open>ComposeECDSASignature on slices in a store\<close>

text \<open>
  A Go slice is a reference: a window \<open>[off, off + len)\<close> on a backing array. To speak of
  two calls, and of what a call may read or change besides its arguments, the store of
  all byte arrays is made explicit: an array is named by its index in the store. A
  \<^verbatim>\<open>nil\<close> or empty slice has length 0 and needs no array.
\<close>

record slice =
  arr :: nat
  off :: nat
  len :: nat

type_synonym store = "byte list list"

definition valid_slice :: "store \<Rightarrow> slice \<Rightarrow> bool" where
  "valid_slice h sl =
     (len sl = 0 \<or> (arr sl < length h \<and> off sl + len sl \<le> length (h ! arr sl)))"

text \<open>
  The bytes a slice shows in a store.
\<close>

definition contents :: "store \<Rightarrow> slice \<Rightarrow> byte list" where
  "contents h sl = take (len sl) (drop (off sl) (h ! arr sl))"

text \<open>
  \<^verbatim>\<open>make([]byte, n)\<close> allocates a new array of \<open>n\<close> zero bytes, behind all the arrays of the
  store, and returns the slice of the whole of it.
\<close>

definition make_st :: "store \<Rightarrow> nat \<Rightarrow> slice \<times> store" where
  "make_st h n = (\<lparr>arr = length h, off = 0, len = n\<rparr>, h @ [make_bytes n])"

text \<open>
  The slice expression \<^verbatim>\<open>sl[lo:hi]\<close> for \<open>lo \<le> hi \<le> len(sl)\<close>: the same array, a
  narrower window.
\<close>

definition sub_slice :: "slice \<Rightarrow> nat \<Rightarrow> nat \<Rightarrow> slice" where
  "sub_slice sl lo hi = \<lparr>arr = arr sl, off = off sl + lo, len = hi - lo\<rparr>"

text \<open>
  Writing bytes through a slice changes its array from the offset of the slice on, and
  no other array.
\<close>

definition write_slice :: "store \<Rightarrow> slice \<Rightarrow> byte list \<Rightarrow> store" where
  "write_slice h sl bs =
     h[arr sl := take (off sl) (h ! arr sl) @ bs @ drop (off sl + length bs) (h ! arr sl)]"

text \<open>
  \<^verbatim>\<open>copy(dst, src)\<close> and \<^verbatim>\<open>x.FillBytes(buf)\<close> in the store: the bytes are those of
  \<open>copy_bytes\<close> and \<open>FillBytes\<close>, written through the destination slice; \<^verbatim>\<open>FillBytes\<close>
  returns the slice it was given.
\<close>

definition copy_st :: "store \<Rightarrow> slice \<Rightarrow> slice \<Rightarrow> store" where
  "copy_st h dst src = write_slice h dst (copy_bytes (contents h dst) (contents h src))"

definition FillBytes_st :: "store \<Rightarrow> int \<Rightarrow> slice \<Rightarrow> panic + (slice \<times> store)" where
  "FillBytes_st h x buf =
     (case FillBytes x (contents h buf) of
        Inl p \<Rightarrow> Inl p
      | Inr bs \<Rightarrow> Inr (buf, write_slice h buf bs))"

text \<open>
  The statements of \<^verbatim>\<open>ComposeECDSASignature\<close> in the store: three allocations, two reads
  of an argument by \<^verbatim>\<open>SetBytes\<close>, two copies into \<^verbatim>\<open>sigBytes\<close>, the read of
  \<^verbatim>\<open>recovery[0]\<close> and the write of \<^verbatim>\<open>sigBytes[64]\<close>. The result is the slice \<^verbatim>\<open>sigBytes\<close>
  or a panic, and the store the call leaves.
\<close>

definition ComposeECDSASignature_st ::
  "store \<Rightarrow> slice \<Rightarrow> slice \<Rightarrow> slice \<Rightarrow> (panic + slice) \<times> store" where
  "ComposeECDSASignature_st h r s recovery =
     (case make_st h 65 of (sigBytes, h1) \<Rightarrow>
      case make_st h1 32 of (buf1, h2) \<Rightarrow>
      case FillBytes_st h2 (SetBytes (contents h2 r)) buf1 of
        Inl p \<Rightarrow> (Inl p, h2)
      | Inr (rb, h3) \<Rightarrow>
          (let h4 = copy_st h3 (sub_slice sigBytes 0 32) rb in
           case make_st h4 32 of (buf2, h5) \<Rightarrow>
           case FillBytes_st h5 (SetBytes (contents h5 s)) buf2 of
             Inl p \<Rightarrow> (Inl p, h5)
           | Inr (sb, h6) \<Rightarrow>
               (let h7 = copy_st h6 (sub_slice sigBytes 32 64) sb in
                if len recovery = 0 then (Inl IndexOutOfRange, h7)
                else (Inr sigBytes,
                      write_slice h7 (sub_slice sigBytes 64 65) [contents h7 recovery ! 0]))))"

text \<open>
  What a caller sees of an outcome in a store: the panic, or the bytes of the returned
  slice.
\<close>

definition view :: "store \<Rightarrow> panic + slice \<Rightarrow> panic + byte list" where
  "view h res = (case res of Inl p \<Rightarrow> Inl p | Inr sl \<Rightarrow> Inr (contents h sl))"

subsection \<open>Test vectors\<close>

text \<open>
  The generator of secp256k1 (SEC 2, section 2.4.1), a point both of whose coordinates
  need all 32 bytes, and its encoding \<open>X\<parallel>Y\<close>.
\<close>

definition G_x :: int where
  "G_x = 0x79BE667EF9DCBBAC55A06295CE870B07029BFCDB2DCE28D959F2815B16F81798"

definition G_y :: int where
  "G_y = 0x483ADA7726A3C4655DA4FBFC0E1108A8FD17B448A68554199C47D08FFB10D4B8"

definition G_bytes :: "byte list" where
  "G_bytes =
     [0x79, 0xBE, 0x66, 0x7E, 0xF9, 0xDC, 0xBB, 0xAC, 0x55, 0xA0, 0x62, 0x95, 0xCE, 0x87, 0x0B, 0x07,
      0x02, 0x9B, 0xFC, 0xDB, 0x2D, 0xCE, 0x28, 0xD9, 0x59, 0xF2, 0x81, 0x5B, 0x16, 0xF8, 0x17, 0x98,
      0x48, 0x3A, 0xDA, 0x77, 0x26, 0xA3, 0xC4, 0x65, 0x5D, 0xA4, 0xFB, 0xFC, 0x0E, 0x11, 0x08, 0xA8,
      0xFD, 0x17, 0xB4, 0x48, 0xA6, 0x85, 0x54, 0x19, 0x9C, 0x47, 0xD0, 0x8F, 0xFB, 0x10, 0xD4, 0xB8]"

text \<open>
  The point of secp256k1 with \<open>x = 1\<close>: its \<open>y\<close> coordinate as an integer and as 32
  big-endian bytes. Its \<open>x\<close> coordinate needs a single byte.
\<close>

definition P1_y :: int where
  "P1_y = 0x4218F20AE6C646B363DB68605822FB14264CA8D2587FDD6FBC750D587E76A7EE"

definition P1_y_bytes :: "byte list" where
  "P1_y_bytes =
     [0x42, 0x18, 0xF2, 0x0A, 0xE6, 0xC6, 0x46, 0xB3, 0x63, 0xDB, 0x68, 0x60, 0x58, 0x22, 0xFB, 0x14,
      0x26, 0x4C, 0xA8, 0xD2, 0x58, 0x7F, 0xDD, 0x6F, 0xBC, 0x75, 0x0D, 0x58, 0x7E, 0x76, 0xA7, 0xEE]"

section \<open>Properties of the big-integer operations\<close>

subsection \<open>Reading a byte slice\<close>

lemma SetBytes_Nil: "SetBytes [] = 0"
  by (simp add: SetBytes_def)

lemma SetBytes_snoc: "SetBytes (bs @ [b]) = SetBytes bs * 256 + uint b"
  by (simp add: SetBytes_def)

lemma uint_byte_bounds: "0 \<le> uint (b :: byte) \<and> uint b < 256"
  using uint_bounded [of b] by simp

lemma SetBytes_nonneg: "0 \<le> SetBytes bs"
  by (induction bs rule: rev_induct) (simp_all add: SetBytes_Nil SetBytes_snoc)

lemma SetBytes_less: "SetBytes bs < 256 ^ length bs"
proof (induction bs rule: rev_induct)
  case Nil
  show ?case by (simp add: SetBytes_Nil)
next
  case (snoc b bs)
  have "uint b < 256" using uint_byte_bounds [of b] by simp
  moreover have "SetBytes bs + 1 \<le> 256 ^ length bs" using snoc.IH by simp
  then have "(SetBytes bs + 1) * 256 \<le> 256 ^ length bs * 256"
    by (rule mult_right_mono) simp
  ultimately show ?case by (simp add: SetBytes_snoc algebra_simps)
qed

lemma SetBytes_zeros: "SetBytes (replicate n 0) = 0"
  by (induction n) (simp_all add: SetBytes_Nil SetBytes_snoc replicate_append_same [symmetric])

lemma SetBytes_Cons: "SetBytes (b # bs) = uint b * 256 ^ length bs + SetBytes bs"
  by (induction bs rule: rev_induct)
    (simp_all add: SetBytes_def algebra_simps)

lemma SetBytes_append: "SetBytes (as @ bs) = SetBytes as * 256 ^ length bs + SetBytes bs"
  by (induction bs rule: rev_induct)
    (simp_all add: SetBytes_Nil SetBytes_snoc append_assoc [symmetric] algebra_simps del: append_assoc)

lemma SetBytes_eq_0_iff: "SetBytes bs = 0 \<longleftrightarrow> (\<forall>b \<in> set bs. b = 0)"
proof (induction bs rule: rev_induct)
  case Nil
  show ?case by (simp add: SetBytes_Nil)
next
  case (snoc b bs)
  have "SetBytes bs * 256 + uint b = 0 \<longleftrightarrow> SetBytes bs = 0 \<and> uint b = 0"
    using SetBytes_nonneg [of bs] uint_byte_bounds [of b] by linarith
  then show ?case using snoc.IH by (auto simp: SetBytes_snoc uint_0_iff)
qed

lemma mag_bytes_0: "mag_bytes 0 = []"
  by (simp add: mag_bytes.simps)

lemma mag_bytes_step:
  assumes "0 \<le> n" and "0 < n \<or> b \<noteq> 0"
  shows "mag_bytes (n * 256 + uint (b :: byte)) = mag_bytes n @ [b]"
proof -
  have b: "uint b < 256" using uint_byte_bounds [of b] by simp
  have "uint b \<noteq> 0" if "b \<noteq> 0"
    using that by (simp add: uint_0_iff)
  then have pos: "0 < n * 256 + uint b"
    using assms uint_byte_bounds [of b] by linarith
  have d: "(n * 256 + uint b) div 256 = n" using b by simp
  have m: "(n * 256 + uint b) mod 256 = uint b" using b by simp
  have "\<not> n * 256 + uint b \<le> 0" using pos by simp
  then have "mag_bytes (n * 256 + uint b) =
      mag_bytes ((n * 256 + uint b) div 256) @ [word_of_int ((n * 256 + uint b) mod 256)]"
    by (subst mag_bytes.simps) (simp only: if_False)
  also have "\<dots> = mag_bytes n @ [b]"
    by (simp only: d m) simp
  finally show ?thesis .
qed

lemma Bytes_SetBytes: "Bytes (SetBytes bs) = dropWhile (\<lambda>b. b = 0) bs"
proof (induction bs rule: rev_induct)
  case Nil
  show ?case by (simp add: Bytes_def SetBytes_Nil mag_bytes_0)
next
  case (snoc b bs)
  have nn: "0 \<le> SetBytes bs" by (rule SetBytes_nonneg)
  have nn': "0 \<le> SetBytes (bs @ [b])" by (rule SetBytes_nonneg)
  have IH: "mag_bytes (SetBytes bs) = dropWhile (\<lambda>b. b = 0) bs"
    using snoc.IH nn by (simp add: Bytes_def)
  show ?case
  proof (cases "SetBytes bs = 0")
    case True
    then have z: "\<forall>x \<in> set bs. x = 0" by (simp add: SetBytes_eq_0_iff)
    then have dw: "dropWhile (\<lambda>b. b = 0) (bs @ [b]) = (if b = 0 then [] else [b])"
      by (simp add: dropWhile_append2)
    show ?thesis
    proof (cases "b = 0")
      case True
      with \<open>SetBytes bs = 0\<close> dw show ?thesis
        by (simp add: Bytes_def SetBytes_snoc mag_bytes_0)
    next
      case False
      have "mag_bytes (0 * 256 + uint b) = mag_bytes 0 @ [b]"
        using False by (intro mag_bytes_step) simp_all
      with \<open>SetBytes bs = 0\<close> dw False show ?thesis
        using nn' by (simp add: Bytes_def SetBytes_snoc mag_bytes_0)
    qed
  next
    case False
    then have pos: "0 < SetBytes bs" using nn by simp
    from False obtain x where "x \<in> set bs" "x \<noteq> 0" by (auto simp: SetBytes_eq_0_iff)
    then have dw: "dropWhile (\<lambda>b. b = 0) (bs @ [b]) = dropWhile (\<lambda>b. b = 0) bs @ [b]"
      by (intro dropWhile_append1) auto
    have "mag_bytes (SetBytes bs * 256 + uint b) = mag_bytes (SetBytes bs) @ [b]"
      using pos by (intro mag_bytes_step) simp_all
    then show ?thesis using nn' IH dw by (simp add: Bytes_def SetBytes_snoc)
  qed
qed

subsection \<open>Leading zero bytes and fixed-width filling\<close>

lemma dropWhile_zero_pad:
  "replicate (length (takeWhile (\<lambda>b. b = 0) bs)) (0 :: byte) @ dropWhile (\<lambda>b. b = 0) bs = bs"
proof -
  have "takeWhile (\<lambda>b. b = 0) bs = replicate (length (takeWhile (\<lambda>b. b = 0) bs)) (0 :: byte)"
    by (intro replicate_length_same [symmetric]) (auto dest: set_takeWhileD)
  then show ?thesis
    using takeWhile_dropWhile_id [of "\<lambda>b. b = 0" bs] by simp
qed

lemma pad_dropWhile_zero:
  assumes "length bs \<le> n"
  shows "replicate (n - length (dropWhile (\<lambda>b. b = 0) bs)) (0 :: byte) @ dropWhile (\<lambda>b. b = 0) bs
           = replicate (n - length bs) 0 @ bs"
proof -
  let ?t = "takeWhile (\<lambda>b. b = 0) bs" and ?d = "dropWhile (\<lambda>b. b = 0) bs"
  have "length (?t @ ?d) = length bs"
    by (simp only: takeWhile_dropWhile_id)
  then have len: "length bs = length ?t + length ?d"
    by (simp only: length_append)
  then have "n - length ?d = (n - length bs) + length ?t"
    using assms by simp
  then have "replicate (n - length ?d) (0 :: byte) @ ?d
      = replicate (n - length bs) 0 @ (replicate (length ?t) 0 @ ?d)"
    by (simp add: replicate_add)
  then show ?thesis by (simp only: dropWhile_zero_pad)
qed

lemma SetBytes_dropWhile_zero: "SetBytes (dropWhile (\<lambda>b. b = 0) bs) = SetBytes bs"
proof -
  have "SetBytes bs = SetBytes (replicate (length (takeWhile (\<lambda>b. b = 0) bs)) 0 @ dropWhile (\<lambda>b. b = 0) bs)"
    by (simp only: dropWhile_zero_pad)
  then show ?thesis by (simp add: SetBytes_append SetBytes_zeros)
qed

lemma SetBytes_lower:
  assumes "bs \<noteq> []" and "hd bs \<noteq> 0"
  shows "256 ^ (length bs - 1) \<le> SetBytes bs"
proof -
  obtain b rest where bs: "bs = b # rest" using assms(1) by (cases bs) auto
  have "uint b \<noteq> 0" using assms(2) bs by (simp add: uint_0_iff)
  then have "1 \<le> uint b" using uint_byte_bounds [of b] by linarith
  then have A: "(256 :: int) ^ length rest \<le> uint b * 256 ^ length rest"
    using mult_right_mono [of 1 "uint b" "256 ^ length rest"] by simp
  have B: "SetBytes bs = uint b * 256 ^ length rest + SetBytes rest"
    by (simp add: bs SetBytes_Cons)
  have C: "length bs - 1 = length rest"
    by (simp add: bs)
  show ?thesis
    unfolding B C using A SetBytes_nonneg [of rest] by linarith
qed

lemma dropWhile_zero_hd:
  "dropWhile (\<lambda>b. b = 0) bs \<noteq> [] \<Longrightarrow> hd (dropWhile (\<lambda>b. b = 0) bs) \<noteq> (0 :: byte)"
  using hd_dropWhile [of "\<lambda>b. b = 0" bs] by simp

lemma length_dropWhile_zero_le_iff:
  "length (dropWhile (\<lambda>b. b = 0) bs) \<le> n \<longleftrightarrow> SetBytes bs < 256 ^ n"
proof
  let ?d = "dropWhile (\<lambda>b. b = 0) bs"
  assume "length ?d \<le> n"
  then have "(256 :: int) ^ length ?d \<le> 256 ^ n"
    by (intro power_increasing) simp_all
  then show "SetBytes bs < 256 ^ n"
    using SetBytes_less [of ?d] unfolding SetBytes_dropWhile_zero by linarith
next
  let ?d = "dropWhile (\<lambda>b. b = 0) bs"
  assume lt: "SetBytes bs < 256 ^ n"
  show "length ?d \<le> n"
  proof (rule ccontr)
    assume "\<not> length ?d \<le> n"
    then have n: "n \<le> length ?d - 1" and pos: "0 < length ?d" by linarith+
    have ne: "?d \<noteq> []"
    proof
      assume "?d = []"
      then have "length ?d = 0" by (simp only: list.size)
      with pos show False by linarith
    qed
    have "(256 :: int) ^ n \<le> 256 ^ (length ?d - 1)"
      using n by (intro power_increasing) simp_all
    also have "\<dots> \<le> SetBytes ?d"
      using ne by (intro SetBytes_lower dropWhile_zero_hd)
    finally show False using lt unfolding SetBytes_dropWhile_zero by linarith
  qed
qed

lemma FillBytes_SetBytes:
  "FillBytes (SetBytes bs) buf =
     (if SetBytes bs < 256 ^ length buf
      then Inr (replicate (length buf - length (dropWhile (\<lambda>b. b = 0) bs)) 0 @ dropWhile (\<lambda>b. b = 0) bs)
      else Inl BufferTooSmall)"
  using length_dropWhile_zero_le_iff [of bs "length buf"]
  by (auto simp: FillBytes_def Bytes_SetBytes Let_def)

lemma FillBytes_SetBytes_short:
  assumes "length bs \<le> length buf"
  shows "FillBytes (SetBytes bs) buf = Inr (replicate (length buf - length bs) 0 @ bs)"
proof -
  have "length (dropWhile (\<lambda>b. b = 0) bs) \<le> length buf"
    using assms length_dropWhile_le [of "\<lambda>b. b = 0" bs] by linarith
  then have "SetBytes bs < 256 ^ length buf"
    by (simp add: length_dropWhile_zero_le_iff)
  then show ?thesis
    by (simp add: FillBytes_SetBytes pad_dropWhile_zero [OF assms])
qed

lemma length_FillBytes: "FillBytes x buf = Inr out \<Longrightarrow> length out = length buf"
  by (auto simp: FillBytes_def Let_def split: if_splits)

lemma SetBytes_FillBytes:
  assumes "FillBytes (SetBytes bs) buf = Inr out"
  shows "SetBytes out = SetBytes bs"
  using assms
  by (auto simp: FillBytes_SetBytes SetBytes_append SetBytes_zeros SetBytes_dropWhile_zero
      split: if_splits)

section \<open>ComposeECDSASignature\<close>

subsection \<open>The outcome of a call\<close>

lemma copy_into_exact:
  assumes "lo \<le> hi" and "hi \<le> length buf" and "length src = hi - lo"
  shows "copy_into buf lo hi src = take lo buf @ src @ drop hi buf"
  using assms by (simp add: copy_into_def copy_bytes_def Let_def)

lemma ComposeECDSASignature_eq:
  "ComposeECDSASignature r s recovery =
     (case FillBytes (SetBytes r) (make_bytes 32) of
        Inl p \<Rightarrow> Inl p
      | Inr rb \<Rightarrow>
          (case FillBytes (SetBytes s) (make_bytes 32) of
             Inl p \<Rightarrow> Inl p
           | Inr sb \<Rightarrow>
               (case recovery of
                  [] \<Rightarrow> Inl IndexOutOfRange
                | v # _ \<Rightarrow> Inr (rb @ sb @ [v]))))"
proof (cases "FillBytes (SetBytes r) (make_bytes 32)")
  case (Inl p)
  then show ?thesis by (simp add: ComposeECDSASignature_def)
next
  case rb: (Inr rb)
  then have lr: "length rb = 32"
    using length_FillBytes [of "SetBytes r" "make_bytes 32" rb] by (simp add: make_bytes_def)
  have c1: "copy_into (make_bytes 65) 0 32 rb = rb @ replicate 33 0"
    using lr by (simp add: copy_into_exact make_bytes_def)
  show ?thesis
  proof (cases "FillBytes (SetBytes s) (make_bytes 32)")
    case (Inl p)
    with rb show ?thesis by (simp add: ComposeECDSASignature_def)
  next
    case sb: (Inr sb)
    then have ls: "length sb = 32"
      using length_FillBytes [of "SetBytes s" "make_bytes 32" sb] by (simp add: make_bytes_def)
    have c2: "copy_into (rb @ replicate 33 0) 32 64 sb = rb @ sb @ [0]"
      using lr ls by (simp add: copy_into_exact)
    have c3: "(rb @ sb @ [0])[64 := v] = rb @ sb @ [v]" for v
      using lr ls by (simp add: list_update_append)
    show ?thesis
      using rb sb by (simp add: ComposeECDSASignature_def c1 c2 c3 split: list.split)
  qed
qed

lemma power_256_32: "(256 :: int) ^ 32 = 2 ^ 256"
  by simp

lemma ComposeECDSASignature_cases:
  "ComposeECDSASignature r s recovery =
     (if 2 ^ 256 \<le> SetBytes r \<or> 2 ^ 256 \<le> SetBytes s then Inl BufferTooSmall
      else case recovery of
             [] \<Rightarrow> Inl IndexOutOfRange
           | v # _ \<Rightarrow>
               Inr ((replicate (32 - length (dropWhile (\<lambda>b. b = 0) r)) 0 @ dropWhile (\<lambda>b. b = 0) r)
                    @ (replicate (32 - length (dropWhile (\<lambda>b. b = 0) s)) 0 @ dropWhile (\<lambda>b. b = 0) s)
                    @ [v]))"
  unfolding ComposeECDSASignature_eq FillBytes_SetBytes make_bytes_def length_replicate power_256_32
  by (simp add: not_le split: list.split)

lemma ComposeECDSASignature_short:
  assumes "length r \<le> 32" and "length s \<le> 32"
  shows "ComposeECDSASignature r s recovery =
     (case recovery of
        [] \<Rightarrow> Inl IndexOutOfRange
      | v # _ \<Rightarrow> Inr ((replicate (32 - length r) 0 @ r) @ (replicate (32 - length s) 0 @ s) @ [v]))"
  unfolding ComposeECDSASignature_eq
  using assms by (simp add: FillBytes_SetBytes_short make_bytes_def)

lemma ComposeECDSASignature_Inr:
  assumes "ComposeECDSASignature r s recovery = Inr sig"
  shows "length sig = 65"
    and "SetBytes (take 32 sig) = SetBytes r"
    and "SetBytes (take 32 (drop 32 sig)) = SetBytes s"
    and "recovery \<noteq> []"
    and "sig ! 64 = recovery ! 0"
proof -
  obtain rb sb v rest where
    rb: "FillBytes (SetBytes r) (make_bytes 32) = Inr rb" and
    sb: "FillBytes (SetBytes s) (make_bytes 32) = Inr sb" and
    rec: "recovery = v # rest" and sig: "sig = rb @ sb @ [v]"
    using assms unfolding ComposeECDSASignature_eq
    by (auto split: sum.splits list.splits)
  have lr: "length rb = 32" and ls: "length sb = 32"
    using length_FillBytes [OF rb] length_FillBytes [OF sb] by (simp_all add: make_bytes_def)
  show "length sig = 65" using lr ls by (simp add: sig)
  show "SetBytes (take 32 sig) = SetBytes r"
    using lr SetBytes_FillBytes [OF rb] by (simp add: sig)
  show "SetBytes (take 32 (drop 32 sig)) = SetBytes s"
    using lr ls SetBytes_FillBytes [OF sb] by (simp add: sig)
  show "recovery \<noteq> []" by (simp add: rec)
  show "sig ! 64 = recovery ! 0"
    using lr ls by (simp add: sig rec nth_append)
qed

lemma SetBytes_long:
  assumes "32 < length r" and "r ! 0 \<noteq> 0"
  shows "2 ^ 256 \<le> SetBytes r"
proof -
  have ne: "r \<noteq> []" using assms(1) by auto
  then have hd: "hd r \<noteq> 0" using assms(2) by (simp add: hd_conv_nth)
  have "(256 :: int) ^ 32 \<le> 256 ^ (length r - 1)"
    using assms(1) by (intro power_increasing) simp_all
  also have "\<dots> \<le> SetBytes r" by (rule SetBytes_lower [OF ne hd])
  finally show ?thesis by simp
qed

subsection \<open>Composition exactness\<close>

text \<open>
  Claim C1. For every \<open>r\<close> and \<open>s\<close> of length 1 to 32 bytes and every recovery slice of
  one byte, \<^verbatim>\<open>ComposeECDSASignature\<close> returns exactly 65 bytes: bytes [0,32) are \<open>r\<close>
  left-padded with zero bytes, bytes [32,64) are \<open>s\<close> left-padded with zero bytes, and
  byte [64] is the recovery value.
\<close>

theorem ComposeECDSASignature_exact:
  assumes "1 \<le> length r" and "length r \<le> 32"
    and "1 \<le> length s" and "length s \<le> 32"
    and "length recovery = 1"
  shows "\<exists>sig. ComposeECDSASignature r s recovery = Inr sig
           \<and> length sig = 65
           \<and> take 32 sig = replicate (32 - length r) 0 @ r
           \<and> take 32 (drop 32 sig) = replicate (32 - length s) 0 @ s
           \<and> sig ! 64 = recovery ! 0"
proof -
  obtain v where rec: "recovery = [v]"
    using assms(5) by (cases recovery) auto
  let ?R = "replicate (32 - length r) 0 @ r" and ?S = "replicate (32 - length s) 0 @ s"
  have lR: "length ?R = 32" and lS: "length ?S = 32"
    using assms by simp_all
  have "ComposeECDSASignature r s recovery = Inr (?R @ ?S @ [v])"
    using assms(2,4) by (simp add: ComposeECDSASignature_short rec)
  moreover have "length (?R @ ?S @ [v]) = 65"
    using lR lS by (simp only: length_append) simp
  moreover have "take 32 (?R @ ?S @ [v]) = ?R"
    using lR by (simp only: append_eq_conv_conj take_append) simp
  moreover have "take 32 (drop 32 (?R @ ?S @ [v])) = ?S"
    using lR lS by simp
  moreover have "(?R @ ?S @ [v]) ! 64 = recovery ! 0"
    using lR lS by (simp add: rec nth_append)
  ultimately show ?thesis by blast
qed

text \<open>
  The example of the specification: \<open>r = 0x1234\<close>, \<open>s = 0x5678\<close>, recovery \<open>0x01\<close>.
\<close>

theorem ComposeECDSASignature_exact_witness:
  "\<exists>sig. ComposeECDSASignature [0x12, 0x34] [0x56, 0x78] [0x01] = Inr sig
     \<and> length sig = 65
     \<and> take 32 sig = replicate 30 0 @ [0x12, 0x34]
     \<and> take 32 (drop 32 sig) = replicate 30 0 @ [0x56, 0x78]
     \<and> sig ! 64 = 0x01"
  using ComposeECDSASignature_exact [of "[0x12, 0x34]" "[0x56, 0x78]" "[0x01]"]
  by simp

subsection \<open>Components that do not fit in 32 bytes\<close>

text \<open>
  Claim C2, as stated, says that every \<open>r\<close> longer than 32 bytes makes the call fail and
  that no such input gives a 65-byte output. A 33-byte \<open>r\<close> whose leading byte is zero is
  accepted: \<^verbatim>\<open>SetBytes\<close> reads its value, which fits in 32 bytes, and the call returns 65
  bytes. A 33-byte \<open>r\<close> whose leading byte is not zero ends the call in the panic of
  \<^verbatim>\<open>FillBytes\<close>; the function has no error result to return.
\<close>

theorem ComposeECDSASignature_overflow_counterexample:
  "32 < length (0 # replicate 32 (1 :: byte))
   \<and> ComposeECDSASignature (0 # replicate 32 1) [2] [3] = Inr (replicate 32 1 @ replicate 31 0 @ [2, 3])
   \<and> length (replicate 32 (1 :: byte) @ replicate 31 0 @ [2, 3]) = 65
   \<and> ComposeECDSASignature (1 # replicate 32 0) [2] [3] = Inl BufferTooSmall"
proof -
  let ?r = "0 # replicate 32 (1 :: byte)"
  have "SetBytes ?r < 256 ^ 32"
    by (subst length_dropWhile_zero_le_iff [symmetric]) (simp add: dropWhile_replicate)
  then have r: "\<not> 2 ^ 256 \<le> SetBytes ?r" by simp
  have s: "\<not> 2 ^ 256 \<le> SetBytes [2]" by (simp add: SetBytes_def)
  have "ComposeECDSASignature ?r [2] [3] = Inr (replicate 32 1 @ replicate 31 0 @ [2, 3])"
    unfolding ComposeECDSASignature_cases using r s by (simp add: dropWhile_replicate)
  moreover have "2 ^ 256 \<le> SetBytes (1 # replicate 32 0)"
    by (rule SetBytes_long) simp_all
  then have "ComposeECDSASignature (1 # replicate 32 0) [2] [3] = Inl BufferTooSmall"
    by (simp add: ComposeECDSASignature_cases)
  ultimately show ?thesis by simp
qed

text \<open>
  Claim C2, amended. For every \<open>r\<close> whose value needs more than 32 bytes, that is
  \<open>2^256 \<le> SetBytes r\<close>, and so for every \<open>r\<close> longer than 32 bytes whose leading byte is
  not zero, \<^verbatim>\<open>ComposeECDSASignature\<close> returns no output: the call panics in
  \<^verbatim>\<open>big.Int.FillBytes\<close> (buffer too small to fit value), whatever \<open>s\<close> and the recovery
  slice are. The function has no error result, so the failure is this panic and not an
  error value; no high-order byte is dropped and no 65-byte output is produced.
\<close>

theorem ComposeECDSASignature_overflow:
  assumes "2 ^ 256 \<le> SetBytes r \<or> (32 < length r \<and> r ! 0 \<noteq> 0)"
  shows "ComposeECDSASignature r s recovery = Inl BufferTooSmall"
  using assms SetBytes_long [of r] by (auto simp: ComposeECDSASignature_cases)

text \<open>
  A 33-byte \<open>r\<close> of bytes \<open>0xFF\<close>.
\<close>

theorem ComposeECDSASignature_overflow_witness:
  "ComposeECDSASignature (replicate 33 0xFF) [2] [3] = Inl BufferTooSmall"
  using ComposeECDSASignature_overflow [of "replicate 33 0xFF" "[2]" "[3]"]
  by simp

subsection \<open>Determinism\<close>

text \<open>
  Arrays that exist before a call are not touched by it: every write of the call goes
  to an array the call has allocated. So a valid slice shows the same bytes afterwards.
\<close>

lemma contents_append:
  assumes "valid_slice h sl"
  shows "contents (h @ ext) sl = contents h sl"
  using assms by (auto simp: valid_slice_def contents_def nth_append)

lemma valid_slice_append:
  assumes "valid_slice h sl"
  shows "valid_slice (h @ ext) sl"
  using assms by (auto simp: valid_slice_def nth_append)

text \<open>
  The outcome and the store after a call, in closed form.
\<close>

lemma ComposeECDSASignature_st_eq:
  assumes "valid_slice h r" and "valid_slice h s" and "valid_slice h recovery"
  shows "ComposeECDSASignature_st h r s recovery =
     (case FillBytes (SetBytes (contents h r)) (make_bytes 32) of
        Inl p \<Rightarrow> (Inl p, h @ [make_bytes 65, make_bytes 32])
      | Inr rb \<Rightarrow>
          (case FillBytes (SetBytes (contents h s)) (make_bytes 32) of
             Inl p \<Rightarrow> (Inl p, h @ [rb @ make_bytes 33, rb, make_bytes 32])
           | Inr sb \<Rightarrow>
               (case contents h recovery of
                  [] \<Rightarrow> (Inl IndexOutOfRange, h @ [rb @ sb @ [0], rb, sb])
                | v # _ \<Rightarrow>
                    (Inr \<lparr>arr = length h, off = 0, len = 65\<rparr>, h @ [rb @ sb @ [v], rb, sb]))))"
proof -
  let ?h2 = "h @ [make_bytes 65, make_bytes 32]"
  have r: "contents ?h2 r = contents h r"
    by (rule contents_append [OF assms(1)])
  have b1: "contents ?h2 \<lparr>arr = Suc (length h), off = 0, len = 32\<rparr> = make_bytes 32"
    by (simp add: contents_def nth_append make_bytes_def)
  show ?thesis
  proof (cases "FillBytes (SetBytes (contents h r)) (make_bytes 32)")
    case (Inl p)
    then show ?thesis
      by (simp add: ComposeECDSASignature_st_def make_st_def FillBytes_st_def r b1)
  next
    case rb: (Inr rb)
    then have lr: "length rb = 32"
      using length_FillBytes [of _ "make_bytes 32" rb] by (simp add: make_bytes_def)
    let ?h3 = "h @ [make_bytes 65, rb]"
    have w1: "write_slice ?h2 \<lparr>arr = Suc (length h), off = 0, len = 32\<rparr> rb = ?h3"
      using lr by (simp add: write_slice_def list_update_append nth_append make_bytes_def)
    let ?h4 = "h @ [rb @ make_bytes 33, rb]"
    have c1: "copy_st ?h3 (sub_slice \<lparr>arr = length h, off = 0, len = 65\<rparr> 0 32)
                \<lparr>arr = Suc (length h), off = 0, len = 32\<rparr> = ?h4"
      using lr
      by (simp add: copy_st_def sub_slice_def contents_def write_slice_def copy_bytes_def
          list_update_append nth_append make_bytes_def)
    let ?h5 = "h @ [rb @ make_bytes 33, rb, make_bytes 32]"
    have s: "contents ?h5 s = contents h s"
      by (rule contents_append [OF assms(2)])
    have b2: "contents ?h5 \<lparr>arr = Suc (Suc (length h)), off = 0, len = 32\<rparr> = make_bytes 32"
      by (simp add: contents_def nth_append make_bytes_def)
    show ?thesis
    proof (cases "FillBytes (SetBytes (contents h s)) (make_bytes 32)")
      case (Inl p)
      then show ?thesis
        using rb
        by (simp add: ComposeECDSASignature_st_def make_st_def FillBytes_st_def r b1 w1 c1 s b2)
    next
      case sb: (Inr sb)
      then have ls: "length sb = 32"
        using length_FillBytes [of _ "make_bytes 32" sb] by (simp add: make_bytes_def)
      let ?h6 = "h @ [rb @ make_bytes 33, rb, sb]"
      have w2: "write_slice ?h5 \<lparr>arr = Suc (Suc (length h)), off = 0, len = 32\<rparr> sb = ?h6"
        using ls by (simp add: write_slice_def list_update_append nth_append make_bytes_def)
      let ?h7 = "h @ [rb @ sb @ [0], rb, sb]"
      have c2: "copy_st ?h6 (sub_slice \<lparr>arr = length h, off = 0, len = 65\<rparr> 32 64)
                  \<lparr>arr = Suc (Suc (length h)), off = 0, len = 32\<rparr> = ?h7"
        using lr ls
        by (simp add: copy_st_def sub_slice_def contents_def write_slice_def copy_bytes_def
            list_update_append nth_append make_bytes_def)
      have rec: "contents ?h7 recovery = contents h recovery"
        by (rule contents_append [OF assms(3)])
      have w3: "write_slice ?h7 (sub_slice \<lparr>arr = length h, off = 0, len = 65\<rparr> 64 65) [v]
                  = h @ [rb @ sb @ [v], rb, sb]" for v
        using lr ls
        by (simp add: sub_slice_def write_slice_def list_update_append nth_append)
      have e: "len recovery = 0 \<longleftrightarrow> contents h recovery = []"
        using assms(3) by (auto simp: valid_slice_def contents_def)
      show ?thesis
        using rb sb
        by (cases "contents h recovery")
          (simp_all add: ComposeECDSASignature_st_def make_st_def FillBytes_st_def
            r b1 w1 c1 s b2 w2 c2 rec w3 e)
    qed
  qed
qed

lemma ComposeECDSASignature_st_store:
  assumes "valid_slice h r" and "valid_slice h s" and "valid_slice h recovery"
  shows "\<exists>ext. snd (ComposeECDSASignature_st h r s recovery) = h @ ext"
  unfolding ComposeECDSASignature_st_eq [OF assms]
  by (simp split: sum.split list.split)

text \<open>
  The bytes a call returns, seen in the store it leaves or in any later store that only
  has more arrays, are those of the function \<open>ComposeECDSASignature\<close> of the bytes of the
  three arguments: nothing else in the store is read.
\<close>

lemma ComposeECDSASignature_st_view:
  assumes "valid_slice h r" and "valid_slice h s" and "valid_slice h recovery"
  shows "view (snd (ComposeECDSASignature_st h r s recovery) @ ext)
              (fst (ComposeECDSASignature_st h r s recovery))
         = ComposeECDSASignature (contents h r) (contents h s) (contents h recovery)"
proof (cases "ComposeECDSASignature (contents h r) (contents h s) (contents h recovery)")
  case (Inl p)
  then show ?thesis
    unfolding ComposeECDSASignature_st_eq [OF assms] ComposeECDSASignature_eq
    by (simp add: view_def split: sum.splits list.splits)
next
  case (Inr sig)
  then obtain rb sb v rest where
    rb: "FillBytes (SetBytes (contents h r)) (make_bytes 32) = Inr rb" and
    sb: "FillBytes (SetBytes (contents h s)) (make_bytes 32) = Inr sb" and
    rec: "contents h recovery = v # rest" and sig: "sig = rb @ sb @ [v]"
    unfolding ComposeECDSASignature_eq by (auto split: sum.splits list.splits)
  have lr: "length rb = 32" and ls: "length sb = 32"
    using length_FillBytes [OF rb] length_FillBytes [OF sb] by (simp_all add: make_bytes_def)
  have "contents ((h @ [rb @ sb @ [v], rb, sb]) @ ext) \<lparr>arr = length h, off = 0, len = 65\<rparr>
      = rb @ sb @ [v]"
    using lr ls by (simp add: contents_def nth_append)
  then show ?thesis
    unfolding ComposeECDSASignature_st_eq [OF assms] ComposeECDSASignature_eq
    by (simp add: rb sb rec view_def)
qed

lemma ComposeECDSASignature_st_fresh:
  assumes "valid_slice h r" and "valid_slice h s" and "valid_slice h recovery"
    and "fst (ComposeECDSASignature_st h r s recovery) = Inr sig"
  shows "sig = \<lparr>arr = length h, off = 0, len = 65\<rparr>"
    and "length h < length (snd (ComposeECDSASignature_st h r s recovery))"
  using assms(4) unfolding ComposeECDSASignature_st_eq [OF assms(1-3)]
  by (auto split: sum.splits list.splits)

text \<open>
  Claim C7. \<^verbatim>\<open>ComposeECDSASignature\<close> is deterministic and has no hidden state. Take any
  store and any three valid argument slices, call the function, and call it again on the
  same slices in the store the first call has left. Then, seen after both calls, the two
  outcomes are byte-identical; they are the function of the bytes of the arguments alone,
  whatever else the store holds; the arguments still show the bytes they showed before
  the first call; and when the calls return, the two outputs are two different arrays of
  65 bytes each.
\<close>

theorem ComposeECDSASignature_deterministic:
  assumes "valid_slice h r" and "valid_slice h s" and "valid_slice h recovery"
  shows "case ComposeECDSASignature_st h r s recovery of (res1, h1) \<Rightarrow>
         case ComposeECDSASignature_st h1 r s recovery of (res2, h2) \<Rightarrow>
           view h2 res1 = view h2 res2
           \<and> view h2 res2 = ComposeECDSASignature (contents h r) (contents h s) (contents h recovery)
           \<and> contents h2 r = contents h r
           \<and> contents h2 s = contents h s
           \<and> contents h2 recovery = contents h recovery
           \<and> (\<forall>sig1 sig2. res1 = Inr sig1 \<and> res2 = Inr sig2 \<longrightarrow>
                 arr sig1 \<noteq> arr sig2
                 \<and> length (contents h2 sig1) = 65 \<and> length (contents h2 sig2) = 65)"
proof -
  obtain res1 h1 where c1: "ComposeECDSASignature_st h r s recovery = (res1, h1)"
    by (cases "ComposeECDSASignature_st h r s recovery")
  obtain res2 h2 where c2: "ComposeECDSASignature_st h1 r s recovery = (res2, h2)"
    by (cases "ComposeECDSASignature_st h1 r s recovery")
  let ?pure = "ComposeECDSASignature (contents h r) (contents h s) (contents h recovery)"
  obtain e1 where h1: "h1 = h @ e1"
    using ComposeECDSASignature_st_store [OF assms] c1 by auto
  have v1: "valid_slice h1 r" "valid_slice h1 s" "valid_slice h1 recovery"
    using assms by (simp_all add: h1 valid_slice_append)
  have k1: "contents h1 r = contents h r" "contents h1 s = contents h s"
    "contents h1 recovery = contents h recovery"
    using assms by (simp_all add: h1 contents_append)
  obtain e2 where h2: "h2 = h1 @ e2"
    using ComposeECDSASignature_st_store [OF v1] c2 by auto
  have k2: "contents h2 r = contents h r" "contents h2 s = contents h s"
    "contents h2 recovery = contents h recovery"
    using v1 k1 by (simp_all add: h2 contents_append)
  have first: "view h2 res1 = ?pure"
    using ComposeECDSASignature_st_view [OF assms, of e2] by (simp add: c1 h2)
  have second: "view h2 res2 = ?pure"
    using ComposeECDSASignature_st_view [OF v1, of "[]"] by (simp add: c2 k1)
  have distinct: "arr sig1 \<noteq> arr sig2 \<and> length (contents h2 sig1) = 65 \<and> length (contents h2 sig2) = 65"
    if "res1 = Inr sig1" and "res2 = Inr sig2" for sig1 sig2
  proof -
    have a1: "sig1 = \<lparr>arr = length h, off = 0, len = 65\<rparr>" and lt: "length h < length h1"
      using ComposeECDSASignature_st_fresh [OF assms, of sig1] that(1) by (simp_all add: c1)
    have a2: "sig2 = \<lparr>arr = length h1, off = 0, len = 65\<rparr>"
      using ComposeECDSASignature_st_fresh(1) [OF v1, of sig2] that(2) by (simp add: c2)
    have "view h2 res1 = Inr (contents h2 sig1)" "view h2 res2 = Inr (contents h2 sig2)"
      using that by (simp_all add: view_def)
    then have "?pure = Inr (contents h2 sig1)" "?pure = Inr (contents h2 sig2)"
      using first second by simp_all
    then have "length (contents h2 sig1) = 65" "length (contents h2 sig2) = 65"
      using ComposeECDSASignature_Inr(1) by blast+
    then show ?thesis using a1 a2 lt by simp
  qed
  show ?thesis
    using first second k2 distinct by (simp add: c1 c2)
qed

text \<open>
  The inputs of the repository's test \<^verbatim>\<open>TestComposeECDSASignature_Consistency\<close>, in a
  store that holds the three arrays.
\<close>

theorem ComposeECDSASignature_deterministic_witness:
  "case ComposeECDSASignature_st [[0x12, 0x34, 0x56, 0x78], [0x9a, 0xbc, 0xde, 0xf0], [0x01]]
          \<lparr>arr = 0, off = 0, len = 4\<rparr> \<lparr>arr = 1, off = 0, len = 4\<rparr> \<lparr>arr = 2, off = 0, len = 1\<rparr>
   of (res1, h1) \<Rightarrow>
   case ComposeECDSASignature_st h1
          \<lparr>arr = 0, off = 0, len = 4\<rparr> \<lparr>arr = 1, off = 0, len = 4\<rparr> \<lparr>arr = 2, off = 0, len = 1\<rparr>
   of (res2, h2) \<Rightarrow>
     view h2 res1 = Inr (replicate 28 0 @ [0x12, 0x34, 0x56, 0x78] @ replicate 28 0
                          @ [0x9a, 0xbc, 0xde, 0xf0] @ [0x01])
     \<and> view h2 res2 = Inr (replicate 28 0 @ [0x12, 0x34, 0x56, 0x78] @ replicate 28 0
                          @ [0x9a, 0xbc, 0xde, 0xf0] @ [0x01])"
proof -
  let ?h = "[[0x12, 0x34, 0x56, 0x78], [0x9a, 0xbc, 0xde, 0xf0], [0x01 :: byte]]"
  let ?r = "\<lparr>arr = 0, off = 0, len = 4\<rparr>" and ?s = "\<lparr>arr = 1, off = 0, len = 4\<rparr>"
    and ?v = "\<lparr>arr = 2, off = 0, len = 1\<rparr>"
  have valid: "valid_slice ?h ?r" "valid_slice ?h ?s" "valid_slice ?h ?v"
    by (simp_all add: valid_slice_def)
  have c: "contents ?h ?r = [0x12, 0x34, 0x56, 0x78]" "contents ?h ?s = [0x9a, 0xbc, 0xde, 0xf0]"
    "contents ?h ?v = [0x01]"
    by (simp_all add: contents_def)
  have p: "ComposeECDSASignature [0x12, 0x34, 0x56, 0x78] [0x9a, 0xbc, 0xde, 0xf0] [0x01]
      = Inr (replicate 28 0 @ [0x12, 0x34, 0x56, 0x78] @ replicate 28 0
             @ [0x9a, 0xbc, 0xde, 0xf0] @ [0x01])"
    by (simp add: ComposeECDSASignature_short)
  show ?thesis
    using ComposeECDSASignature_deterministic [OF valid]
    unfolding c p by (auto split: prod.splits)
qed

text \<open>
  Two calls in two unrelated stores, on slices that show the same bytes, have the same
  outcome.
\<close>

lemma ComposeECDSASignature_st_store_independent:
  assumes "valid_slice h r" and "valid_slice h s" and "valid_slice h recovery"
    and "valid_slice h' r'" and "valid_slice h' s'" and "valid_slice h' recovery'"
    and "contents h' r' = contents h r" and "contents h' s' = contents h s"
    and "contents h' recovery' = contents h recovery"
  shows "view (snd (ComposeECDSASignature_st h' r' s' recovery'))
              (fst (ComposeECDSASignature_st h' r' s' recovery'))
       = view (snd (ComposeECDSASignature_st h r s recovery))
              (fst (ComposeECDSASignature_st h r s recovery))"
  using ComposeECDSASignature_st_view [OF assms(1-3), of "[]"]
    ComposeECDSASignature_st_view [OF assms(4-6), of "[]"] assms(7-9)
  by simp

subsection \<open>The recovery slice\<close>

text \<open>
  Claim C8. \<^verbatim>\<open>ComposeECDSASignature\<close> indexes \<^verbatim>\<open>recovery[0]\<close> unconditionally: for every
  \<open>r\<close> and \<open>s\<close> a call with an empty recovery slice panics and returns nothing, so a call
  is defined only when the recovery slice is non-empty. When both components fit in 32
  bytes the panic is the index out of range; otherwise \<^verbatim>\<open>FillBytes\<close> has panicked before.
\<close>

theorem ComposeECDSASignature_empty_recovery:
  "ComposeECDSASignature r s [] =
     Inl (if 2 ^ 256 \<le> SetBytes r \<or> 2 ^ 256 \<le> SetBytes s then BufferTooSmall else IndexOutOfRange)"
  by (simp add: ComposeECDSASignature_cases)

text \<open>
  Claim C9. The output depends on the recovery slice only through its first byte: for
  every \<open>r\<close>, \<open>s\<close> and every two non-empty recovery slices with the same first byte, the
  two calls have the same outcome, whatever bytes follow.
\<close>

theorem ComposeECDSASignature_recovery_first_byte:
  assumes "recovery1 \<noteq> []" and "recovery2 \<noteq> []" and "recovery1 ! 0 = recovery2 ! 0"
  shows "ComposeECDSASignature r s recovery1 = ComposeECDSASignature r s recovery2"
  using assms
  by (cases recovery1; cases recovery2) (simp_all add: ComposeECDSASignature_eq split: sum.split)

theorem ComposeECDSASignature_recovery_first_byte_witness:
  "ComposeECDSASignature [0x12, 0x34] [0x56, 0x78] [0x01] =
   ComposeECDSASignature [0x12, 0x34] [0x56, 0x78] [0x01, 0xAA, 0xBB]"
  using ComposeECDSASignature_recovery_first_byte
    [of "[0x01]" "[0x01, 0xAA, 0xBB]" "[0x12, 0x34]" "[0x56, 0x78]"]
  by simp

section \<open>More on the big-integer operations\<close>

subsection \<open>Writing a magnitude\<close>

lemma uint_word_of_int_byte: "uint (word_of_int (n mod 256) :: byte) = n mod 256"
  by (simp add: uint_word_of_int take_bit_eq_mod)

lemma SetBytes_mag_bytes: "0 \<le> n \<Longrightarrow> SetBytes (mag_bytes n) = n"
proof (induction n rule: mag_bytes.induct)
  case (1 n)
  show ?case
  proof (cases "n \<le> 0")
    case True
    with "1.prems" have "n = 0" by simp
    then show ?thesis by (simp add: mag_bytes_0 SetBytes_Nil)
  next
    case False
    then have "0 \<le> n div 256" by simp
    with False "1.IH" have IH: "SetBytes (mag_bytes (n div 256)) = n div 256" by simp
    have "mag_bytes n = mag_bytes (n div 256) @ [word_of_int (n mod 256)]"
      using False by (subst mag_bytes.simps) (simp only: if_False)
    then show ?thesis
      by (simp add: SetBytes_snoc IH uint_word_of_int_byte)
  qed
qed

lemma SetBytes_Bytes: "SetBytes (Bytes x) = \<bar>x\<bar>"
  by (simp add: Bytes_def SetBytes_mag_bytes)

lemma Bytes_no_leading_zero: "dropWhile (\<lambda>b. b = 0) (Bytes x) = Bytes x"
proof -
  have "dropWhile (\<lambda>b. b = 0) (Bytes x) = Bytes (SetBytes (Bytes x))"
    by (simp only: Bytes_SetBytes)
  also have "\<dots> = Bytes \<bar>x\<bar>"
    by (simp only: SetBytes_Bytes)
  also have "\<dots> = Bytes x"
    by (simp add: Bytes_def)
  finally show ?thesis .
qed

lemma length_Bytes_le_iff: "length (Bytes x) \<le> n \<longleftrightarrow> \<bar>x\<bar> < 256 ^ n"
  using length_dropWhile_zero_le_iff [of "Bytes x" n]
  by (simp only: Bytes_no_leading_zero SetBytes_Bytes)

lemma length_Bytes_32_iff: "length (Bytes x) = 32 \<longleftrightarrow> 2 ^ 248 \<le> \<bar>x\<bar> \<and> \<bar>x\<bar> < 2 ^ 256"
proof -
  have "length (Bytes x) = 32 \<longleftrightarrow> length (Bytes x) \<le> 32 \<and> \<not> length (Bytes x) \<le> 31"
    by linarith
  also have "\<dots> \<longleftrightarrow> \<bar>x\<bar> < 256 ^ 32 \<and> \<not> \<bar>x\<bar> < 256 ^ 31"
    by (simp only: length_Bytes_le_iff)
  also have "\<dots> \<longleftrightarrow> 2 ^ 248 \<le> \<bar>x\<bar> \<and> \<bar>x\<bar> < 2 ^ 256"
    by auto
  finally show ?thesis .
qed

lemma Bytes_1: "Bytes 1 = [0x01]"
  using Bytes_SetBytes [of "[0x01]"] by (simp add: SetBytes_def)

lemma Bytes_P1_y: "Bytes P1_y = P1_y_bytes"
proof -
  have "SetBytes P1_y_bytes = P1_y"
    by (simp add: P1_y_bytes_def SetBytes_def P1_y_def)
  then have "Bytes P1_y = dropWhile (\<lambda>b. b = 0) P1_y_bytes"
    by (simp only: Bytes_SetBytes [symmetric])
  then show ?thesis by (simp add: P1_y_bytes_def)
qed

subsection \<open>The curve test\<close>

text \<open>
  \<^verbatim>\<open>IsOnCurve\<close> computes with reduced coordinates; it decides the curve equation on the
  integers it is given.
\<close>

lemma mod_cube: "(a mod p * (a mod p) * (a mod p)) mod p = (a * a * a) mod (p :: int)"
proof -
  have 1: "(a mod p) mod p = a mod p"
    by simp
  have 2: "(a mod p * (a mod p)) mod p = (a * a) mod p"
    by (rule mod_mult_eq)
  show ?thesis
    by (rule mod_mult_cong [OF 2 1])
qed

lemma IsOnCurve_iff: "IsOnCurve x y \<longleftrightarrow> satisfies_curve_equation x y"
proof -
  have l: "(y mod S256_P * (y mod S256_P)) mod S256_P = y ^ 2 mod S256_P"
    by (simp only: power2_eq_square mod_mult_eq)
  have "(x mod S256_P * (x mod S256_P) * (x mod S256_P) + 7) mod S256_P
      = ((x mod S256_P * (x mod S256_P) * (x mod S256_P)) mod S256_P + 7) mod S256_P"
    by (simp only: mod_add_left_eq)
  also have "\<dots> = ((x * x * x) mod S256_P + 7) mod S256_P"
    by (simp only: mod_cube)
  also have "\<dots> = (x ^ 3 + 7) mod S256_P"
    by (simp only: mod_add_left_eq power3_eq_cube)
  finally have r: "(x mod S256_P * (x mod S256_P) * (x mod S256_P) + 7) mod S256_P
      = (x ^ 3 + 7) mod S256_P" .
  have "IsOnCurve x y \<longleftrightarrow> y ^ 2 mod S256_P = (x ^ 3 + 7) mod S256_P"
    unfolding IsOnCurve_def Let_def l r ..
  also have "\<dots> \<longleftrightarrow> satisfies_curve_equation x y"
    unfolding satisfies_curve_equation_def
    by (simp only: mod_eq_dvd_iff mod_eq_0_iff_dvd)
  finally show ?thesis .
qed

text \<open>
  The test vectors: each multiple of the field prime is given, so that the kernel only
  multiplies.
\<close>

lemma satisfies_curve_equation_G: "satisfies_curve_equation G_x G_y"
proof -
  have "G_y ^ 2 - (G_x ^ 3 + 7) = S256_P *
      (- 1442042049659660869506300006036683750029629333882594701370927246876626245108435922902327776681700708714008192087431130951749952236093997894375239788520937)"
    by (simp add: G_x_def G_y_def S256_P_def)
  then show ?thesis
    unfolding satisfies_curve_equation_def by (simp only: mod_mult_self1_is_0)
qed

lemma satisfies_curve_equation_P1: "satisfies_curve_equation 1 P1_y"
proof -
  have "P1_y ^ 2 - (1 ^ 3 + 7) = S256_P *
      7719128683233705066404389367829327015248518908378223810281666465860726814596"
    by (simp add: P1_y_def S256_P_def)
  then show ?thesis
    unfolding satisfies_curve_equation_def by (simp only: mod_mult_self1_is_0)
qed

lemma not_satisfies_curve_equation_G1: "\<not> satisfies_curve_equation G_x (G_y + 1)"
proof -
  have "(G_y + 1) ^ 2 - (G_x ^ 3 + 7) = S256_P *
      (- 1442042049659660869506300006036683750029629333882594701370927246876626245108435922902327776681700708714008192087431130951749952236093997894375239788520937)
      + 65341020041517633956166170261014086368942546761318486551877808671514674964849"
    by (simp add: G_x_def G_y_def S256_P_def)
  moreover have "(0::int) \<le> 65341020041517633956166170261014086368942546761318486551877808671514674964849"
    by simp
  moreover have "65341020041517633956166170261014086368942546761318486551877808671514674964849 < S256_P"
    by (simp add: S256_P_def)
  ultimately have "((G_y + 1) ^ 2 - (G_x ^ 3 + 7)) mod S256_P
      = 65341020041517633956166170261014086368942546761318486551877808671514674964849"
    by (rule int_mod_pos_eq)
  then show ?thesis
    unfolding satisfies_curve_equation_def by simp
qed

lemma length_G_bytes: "length G_bytes = 64"
  by (simp add: G_bytes_def)

lemma SetBytes_G_bytes:
  "SetBytes (take 32 G_bytes) = G_x" "SetBytes (drop 32 G_bytes) = G_y"
  by (simp_all add: G_bytes_def SetBytes_def G_x_def G_y_def)

lemma length_off_curve: "length (take 63 G_bytes @ [0xB9]) = 64"
  by (simp add: G_bytes_def)

lemma SetBytes_off_curve:
  "SetBytes (take 32 (take 63 G_bytes @ [0xB9])) = G_x"
  "SetBytes (drop 32 (take 63 G_bytes @ [0xB9])) = G_y + 1"
  by (simp_all add: G_bytes_def SetBytes_def G_x_def G_y_def)

lemma valid_S256_key_P1: "valid_S256_key \<lparr>Curve = S256, X = Some 1, Y = Some P1_y\<rparr>"
  using satisfies_curve_equation_P1
  by (simp add: valid_S256_key_def) (simp add: S256_P_def P1_y_def)

section \<open>DecodeECDSAPubKey\<close>

lemma DecodeECDSAPubKey_body:
  assumes "length body = 64"
  shows "DecodeECDSAPubKey body =
     (if IsOnCurve (SetBytes (take 32 body)) (SetBytes (drop 32 body))
      then Inr \<lparr>Curve = S256, X = Some (SetBytes (take 32 body)), Y = Some (SetBytes (drop 32 body))\<rparr>
      else Inl PointNotOnCurve)"
  using assms by (simp add: DecodeECDSAPubKey_def Let_def)

lemma DecodeECDSAPubKey_marker:
  assumes "length body = 64"
  shows "DecodeECDSAPubKey (0x04 # body) = DecodeECDSAPubKey body"
  using assms by (simp add: DecodeECDSAPubKey_def Let_def)

lemma DecodeECDSAPubKey_length:
  assumes "length encodedKey \<noteq> 64" and "\<not> (length encodedKey = 65 \<and> encodedKey ! 0 = 0x04)"
  shows "DecodeECDSAPubKey encodedKey = Inl InvalidKeyEncoding"
  using assms by (auto simp: DecodeECDSAPubKey_def Let_def)

text \<open>
  Claim C5. For every 64-byte input, and every 65-byte input that is the marker \<open>0x04\<close>
  followed by such a body, whose parsed \<open>(X, Y)\<close> does not satisfy the curve equation of
  secp256k1, \<^verbatim>\<open>DecodeECDSAPubKey\<close> fails with the point-not-on-curve error and returns
  no public key.
\<close>

theorem DecodeECDSAPubKey_off_curve:
  assumes "length body = 64"
    and "\<not> satisfies_curve_equation (SetBytes (take 32 body)) (SetBytes (drop 32 body))"
  shows "DecodeECDSAPubKey body = Inl PointNotOnCurve
       \<and> DecodeECDSAPubKey (0x04 # body) = Inl PointNotOnCurve"
  using assms
  by (simp add: DecodeECDSAPubKey_marker DecodeECDSAPubKey_body IsOnCurve_iff)

text \<open>
  The encoding of the generator with its last byte changed from \<open>0xB8\<close> to \<open>0xB9\<close>.
\<close>

theorem DecodeECDSAPubKey_off_curve_witness:
  "DecodeECDSAPubKey (take 63 G_bytes @ [0xB9]) = Inl PointNotOnCurve
   \<and> DecodeECDSAPubKey (0x04 # take 63 G_bytes @ [0xB9]) = Inl PointNotOnCurve"
  using DecodeECDSAPubKey_off_curve [of "take 63 G_bytes @ [0xB9]"]
    length_off_curve not_satisfies_curve_equation_G1
  by (simp only: SetBytes_off_curve not_False_eq_True simp_thms)

text \<open>
  Claim C6. For every input whose length is neither 64 nor 65 with the marker \<open>0x04\<close>
  in front, \<^verbatim>\<open>DecodeECDSAPubKey\<close> fails with the invalid-length error; for a 65-byte
  input with the marker, the marker is stripped and the 64-byte body is parsed into the
  two 32-byte big-endian integers \<open>X\<close> and \<open>Y\<close>.
\<close>

theorem DecodeECDSAPubKey_input_length:
  "(length encodedKey \<noteq> 64 \<and> \<not> (length encodedKey = 65 \<and> encodedKey ! 0 = 0x04)
      \<longrightarrow> DecodeECDSAPubKey encodedKey = Inl InvalidKeyEncoding)
   \<and> (length body = 64
      \<longrightarrow> DecodeECDSAPubKey (0x04 # body) =
           (if IsOnCurve (SetBytes (take 32 body)) (SetBytes (drop 32 body))
            then Inr \<lparr>Curve = S256, X = Some (SetBytes (take 32 body)),
                       Y = Some (SetBytes (drop 32 body))\<rparr>
            else Inl PointNotOnCurve))"
  using DecodeECDSAPubKey_length [of encodedKey] DecodeECDSAPubKey_body [of body]
  by (simp add: DecodeECDSAPubKey_marker)

text \<open>
  A 33-byte compressed encoding is refused; the generator with the marker in front is
  decoded to its coordinates.
\<close>

theorem DecodeECDSAPubKey_input_length_witness:
  "DecodeECDSAPubKey (0x02 # take 32 G_bytes) = Inl InvalidKeyEncoding
   \<and> DecodeECDSAPubKey (0x04 # G_bytes) = Inr \<lparr>Curve = S256, X = Some G_x, Y = Some G_y\<rparr>"
proof -
  have a: "length (0x02 # take 32 G_bytes) \<noteq> 64
      \<and> \<not> (length (0x02 # take 32 G_bytes) = 65 \<and> (0x02 # take 32 G_bytes) ! 0 = 0x04)"
    by (simp add: length_G_bytes)
  have b: "IsOnCurve G_x G_y"
    by (simp only: IsOnCurve_iff satisfies_curve_equation_G)
  show ?thesis
    using DecodeECDSAPubKey_input_length [of "0x02 # take 32 G_bytes" G_bytes] a b length_G_bytes
    by (simp only: SetBytes_G_bytes if_True simp_thms)
qed

text \<open>
  Claim C10. The leading byte of a 65-byte input is stripped only when it is \<open>0x04\<close>:
  for every 65-byte input whose first byte is not \<open>0x04\<close> nothing is stripped and
  decoding fails with the invalid-length error.
\<close>

theorem DecodeECDSAPubKey_wrong_marker:
  assumes "length encodedKey = 65" and "encodedKey ! 0 \<noteq> 0x04"
  shows "DecodeECDSAPubKey encodedKey = Inl InvalidKeyEncoding"
  using assms by (simp add: DecodeECDSAPubKey_def)

theorem DecodeECDSAPubKey_wrong_marker_witness:
  "DecodeECDSAPubKey (0x02 # G_bytes) = Inl InvalidKeyEncoding"
  using DecodeECDSAPubKey_wrong_marker [of "0x02 # G_bytes"]
  by (simp add: length_G_bytes)

section \<open>EncodeS256PubKey\<close>

lemma EncodeS256PubKey_Some:
  "EncodeS256PubKey (Some \<lparr>Curve = c, X = Some x, Y = Some y\<rparr>) = Inr (Bytes x @ Bytes y, None)"
  by (simp add: EncodeS256PubKey_def)

text \<open>
  Claim C3 says that every public key is encoded as \<open>X\<parallel>Y\<close> with each coordinate
  left-padded to 32 bytes, 64 bytes in all, also when a coordinate has high-order zero
  bytes. \<^verbatim>\<open>EncodeS256PubKey\<close> appends \<^verbatim>\<open>X.Bytes()\<close> and \<^verbatim>\<open>Y.Bytes()\<close>, each of minimal
  length: the valid key with \<open>X = 1\<close> is encoded in 33 bytes, one for \<open>X\<close> and 32 for
  \<open>Y\<close>.
\<close>

theorem EncodeS256PubKey_short_coordinate:
  "EncodeS256PubKey (Some \<lparr>Curve = S256, X = Some 1, Y = Some P1_y\<rparr>)
     = Inr (0x01 # P1_y_bytes, None)
   \<and> length (0x01 # P1_y_bytes) = 33"
  by (simp add: EncodeS256PubKey_Some Bytes_1 Bytes_P1_y) (simp add: P1_y_bytes_def)

text \<open>
  Claim C4 says that for every valid secp256k1 public key, encoding and then decoding
  succeeds and returns the coordinates of the key. The key with \<open>X = 1\<close> is valid; its
  encoding has 33 bytes and \<^verbatim>\<open>DecodeECDSAPubKey\<close> refuses it with the invalid-length
  error.
\<close>

theorem EncodeS256PubKey_roundtrip_fails:
  "valid_S256_key \<lparr>Curve = S256, X = Some 1, Y = Some P1_y\<rparr>
   \<and> EncodeS256PubKey (Some \<lparr>Curve = S256, X = Some 1, Y = Some P1_y\<rparr>)
       = Inr (0x01 # P1_y_bytes, None)
   \<and> DecodeECDSAPubKey (0x01 # P1_y_bytes) = Inl InvalidKeyEncoding"
proof -
  have "length (0x01 # P1_y_bytes) = 33"
    by (simp add: P1_y_bytes_def)
  then have "DecodeECDSAPubKey (0x01 # P1_y_bytes) = Inl InvalidKeyEncoding"
    by (intro DecodeECDSAPubKey_length) simp_all
  then show ?thesis
    using valid_S256_key_P1 by (simp add: EncodeS256PubKey_Some Bytes_1 Bytes_P1_y)
qed

text \<open>
  Without padding the boundary between the coordinates is lost: two different keys have
  the same encoding.
\<close>

lemma EncodeS256PubKey_not_injective:
  "EncodeS256PubKey (Some \<lparr>Curve = S256, X = Some 0x0102, Y = Some 0x03\<rparr>)
     = EncodeS256PubKey (Some \<lparr>Curve = S256, X = Some 0x01, Y = Some 0x0203\<rparr>)"
proof -
  have "Bytes 0x0102 = [0x01, 0x02]" "Bytes 0x03 = [0x03]" "Bytes 0x01 = [0x01]" "Bytes 0x0203 = [0x02, 0x03]"
    using Bytes_SetBytes [of "[0x01, 0x02]"] Bytes_SetBytes [of "[0x03]"]
      Bytes_SetBytes [of "[0x01]"] Bytes_SetBytes [of "[0x02, 0x03]"]
    by (simp_all add: SetBytes_def)
  then show ?thesis by (simp add: EncodeS256PubKey_Some)
qed

text \<open>
  The round trip of a valid key succeeds exactly when both coordinates need all 32
  bytes; with a shorter coordinate the encoding has fewer than 64 bytes and is refused.
\<close>

lemma EncodeS256PubKey_roundtrip_full_width:
  assumes "valid_S256_key k" and "X k = Some x" and "Y k = Some y"
    and "2 ^ 248 \<le> x" and "2 ^ 248 \<le> y"
  shows "\<exists>enc. EncodeS256PubKey (Some k) = Inr (enc, None) \<and> length enc = 64
           \<and> DecodeECDSAPubKey enc = Inr k"
proof -
  have v: "Curve k = S256" "0 \<le> x" "x < S256_P" "0 \<le> y" "y < S256_P" "satisfies_curve_equation x y"
    using assms(1-3) by (simp_all add: valid_S256_key_def)
  have "S256_P < 2 ^ 256" by (simp add: S256_P_def)
  then have lx: "length (Bytes x) = 32" and ly: "length (Bytes y) = 32"
    using v assms(4,5) by (simp_all add: length_Bytes_32_iff)
  have k: "k = \<lparr>Curve = S256, X = Some x, Y = Some y\<rparr>"
    using v(1) assms(2,3) by (cases k) simp
  have enc: "EncodeS256PubKey (Some k) = Inr (Bytes x @ Bytes y, None)"
    by (subst k) (rule EncodeS256PubKey_Some)
  have "DecodeECDSAPubKey (Bytes x @ Bytes y) = Inr k"
    using lx ly v by (subst DecodeECDSAPubKey_body) (simp_all add: SetBytes_Bytes IsOnCurve_iff k)
  with enc lx ly show ?thesis by simp
qed

lemma EncodeS256PubKey_roundtrip_short:
  assumes "valid_S256_key k" and "X k = Some x" and "Y k = Some y"
    and "x < 2 ^ 248 \<or> y < 2 ^ 248"
  shows "\<exists>enc. EncodeS256PubKey (Some k) = Inr (enc, None) \<and> length enc < 64
           \<and> DecodeECDSAPubKey enc = Inl InvalidKeyEncoding"
proof -
  have v: "Curve k = S256" "0 \<le> x" "x < S256_P" "0 \<le> y" "y < S256_P"
    using assms(1-3) by (simp_all add: valid_S256_key_def)
  have "S256_P < 256 ^ 32" by (simp add: S256_P_def)
  then have "\<bar>x\<bar> < 256 ^ 32" "\<bar>y\<bar> < 256 ^ 32" using v by simp_all
  then have le: "length (Bytes x) \<le> 32" "length (Bytes y) \<le> 32"
    by (simp_all only: length_Bytes_le_iff)
  have "\<bar>x\<bar> < 256 ^ 31 \<or> \<bar>y\<bar> < 256 ^ 31" using assms(4) v by auto
  then have "length (Bytes x) \<le> 31 \<or> length (Bytes y) \<le> 31"
    by (simp only: length_Bytes_le_iff)
  with le have len: "length (Bytes x @ Bytes y) < 64" by auto
  have k: "k = \<lparr>Curve = S256, X = Some x, Y = Some y\<rparr>"
    using v(1) assms(2,3) by (cases k) simp
  have enc: "EncodeS256PubKey (Some k) = Inr (Bytes x @ Bytes y, None)"
    by (subst k) (rule EncodeS256PubKey_Some)
  have "DecodeECDSAPubKey (Bytes x @ Bytes y) = Inl InvalidKeyEncoding"
    using len by (intro DecodeECDSAPubKey_length) simp_all
  with enc len show ?thesis by blast
qed

end
